theory Spec2Isabelle
  imports Main "HOL-Library.Word" "HOL-Library.Multiset"
begin

unbundle bit_operations_syntax

section \<open>The N-dimensional cube of rubik3.cpp\<close>

text \<open>
  A shallow embedding of \<^verbatim>\<open>src/rubik3.cpp\<close>. The template parameter \<^verbatim>\<open>DIMS\<close> is an
  explicit argument \<open>DIMS :: nat\<close> of every function that depends on it.

  Integers. \<^verbatim>\<open>size_t\<close> and \<^verbatim>\<open>int64_t\<close> are \<open>64 word\<close>: the arithmetic of \<^verbatim>\<open>ipow\<close> and of
  \<^verbatim>\<open>from_index\<close> wraps modulo \<open>2 ^ 64\<close> (the two's complement behaviour of the signed
  multiplication in \<^verbatim>\<open>ipow\<close>; converting its \<^verbatim>\<open>int64_t\<close> result to \<^verbatim>\<open>size_t\<close> for the unsigned
  division keeps the bits; the compile-time evaluation of \<^verbatim>\<open>NUM_POINTS\<close>, where overflow is
  an error, is \<open>ipow_constexpr\<close>). The \<^verbatim>\<open>int\<close> sum of \<^verbatim>\<open>unsolvedness\<close> is an \<open>int\<close> wrapped to 32
  bits by \<open>int_wrap\<close>. Values of \<^verbatim>\<open>coord_t\<close> and \<^verbatim>\<open>dim_t\<close> (both \<^verbatim>\<open>uint8_t\<close>) are \<open>nat\<close>: the
  program performs no arithmetic on them, it only stores constants, remainders modulo 3
  and the numbers below \<^verbatim>\<open>DIMS\<close> (itself a \<^verbatim>\<open>dim_t\<close>, so at most 255), compares them, and
  promotes them to \<^verbatim>\<open>int\<close>.

  Arrays \<^verbatim>\<open>std::array<coord_t, DIMS>\<close> are lists; that their length is \<open>DIMS\<close> is the
  predicate \<open>vec_ok\<close>. Assertions are enabled (no \<^verbatim>\<open>NDEBUG\<close>): a failing \<^verbatim>\<open>assert\<close> and a
  division by zero end the program, and are values of the type \<open>error\<close>; a function that
  can reach one returns \<open>error + 'a\<close>.
\<close>

datatype error = AssertionFailed | DivisionByZero

type_synonym coord_t = nat
type_synonym dim_t = nat
type_synonym vec = "coord_t list"

subsection \<open>ipow\<close>

function ipow :: "64 word \<Rightarrow> int \<Rightarrow> 64 word \<Rightarrow> 64 word" where
  "ipow base e result =
     (if e < 1 then result
      else ipow (base * base) (e div 2) (if e mod 2 \<noteq> 0 then result * base else result))"
  by pat_completeness auto
termination
  by (relation "measure (\<lambda>(base, e, result). nat e)") auto

declare ipow.simps [simp del]

subsection \<open>Side and Rotation\<close>

datatype Side = FRONT | BACK

fun side_value :: "Side \<Rightarrow> nat" where
  "side_value FRONT = 0"
| "side_value BACK = 2"

text \<open>The fields \<^verbatim>\<open>from\<close> and \<^verbatim>\<open>to\<close> are \<open>from_axis\<close> and \<open>to_axis\<close>, the names
  \<^verbatim>\<open>Point::rotate\<close> gives them.\<close>

record Rotation =
  axis :: dim_t
  from_axis :: dim_t
  to_axis :: dim_t
  side :: Side

text \<open>The two assertions at the head of \<^verbatim>\<open>Point::rotate\<close>.\<close>

definition valid_rotation :: "nat \<Rightarrow> Rotation \<Rightarrow> bool" where
  "valid_rotation DIMS r \<longleftrightarrow>
     (axis r \<noteq> from_axis r \<and> from_axis r \<noteq> to_axis r \<and> to_axis r \<noteq> axis r) \<and>
     (axis r < DIMS \<and> from_axis r < DIMS \<and> to_axis r < DIMS)"

subsection \<open>Point\<close>

record Point =
  original_coords :: vec
  coords :: vec
  orientation :: vec

definition Point_create :: "nat \<Rightarrow> vec \<Rightarrow> Point" where
  "Point_create DIMS input =
     \<lparr>original_coords = input, coords = input, orientation = [0..<DIMS]\<rparr>"

text \<open>The body of the loop of \<^verbatim>\<open>from_index\<close>: the digit \<^verbatim>\<open>(i / ipow(3, index)) % 3\<close>.\<close>

definition index_digit :: "64 word \<Rightarrow> nat \<Rightarrow> error + coord_t" where
  "index_digit i index =
     (let divisor = ipow 3 (int index) 1
      in if divisor = 0 then Inl DivisionByZero
         else Inr (unat ((i div divisor) mod 3)))"

fun mapM_res :: "('a \<Rightarrow> error + 'b) \<Rightarrow> 'a list \<Rightarrow> error + 'b list" where
  "mapM_res f [] = Inr []"
| "mapM_res f (x # xs) =
     (case f x of
        Inl e \<Rightarrow> Inl e
      | Inr y \<Rightarrow> (case mapM_res f xs of Inl e \<Rightarrow> Inl e | Inr ys \<Rightarrow> Inr (y # ys)))"

definition from_index :: "nat \<Rightarrow> 64 word \<Rightarrow> error + Point" where
  "from_index DIMS i =
     (case mapM_res (index_digit i) [0..<DIMS] of
        Inl e \<Rightarrow> Inl e
      | Inr vals \<Rightarrow> Inr (Point_create DIMS vals))"

definition swap_at :: "'a list \<Rightarrow> nat \<Rightarrow> nat \<Rightarrow> 'a list" where
  "swap_at xs i j = xs[i := xs ! j, j := xs ! i]"

definition Point_rotate :: "nat \<Rightarrow> Rotation \<Rightarrow> Point \<Rightarrow> error + Point" where
  "Point_rotate DIMS r p =
     (if \<not> (axis r \<noteq> from_axis r \<and> from_axis r \<noteq> to_axis r \<and> to_axis r \<noteq> axis r)
      then Inl AssertionFailed
      else if \<not> (axis r < DIMS \<and> from_axis r < DIMS \<and> to_axis r < DIMS)
      then Inl AssertionFailed
      else if coords p ! axis r \<noteq> side_value (side r) then Inr p
      else
        let q = p\<lparr>orientation := swap_at (orientation p) (from_axis r) (to_axis r)\<rparr>;
            c = coords p
        in if c ! from_axis r = 0 then
             (if c ! to_axis r = 0 then Inr (q\<lparr>coords := c[from_axis r := 2, to_axis r := 0]\<rparr>)
              else if c ! to_axis r = 1 then Inr (q\<lparr>coords := c[from_axis r := 1, to_axis r := 0]\<rparr>)
              else if c ! to_axis r = 2 then Inr (q\<lparr>coords := c[from_axis r := 0, to_axis r := 0]\<rparr>)
              else Inl AssertionFailed)
           else if c ! from_axis r = 1 then
             (if c ! to_axis r = 0 then Inr (q\<lparr>coords := c[from_axis r := 2, to_axis r := 1]\<rparr>)
              else if c ! to_axis r = 1 then Inr q
              else if c ! to_axis r = 2 then Inr (q\<lparr>coords := c[from_axis r := 0, to_axis r := 1]\<rparr>)
              else Inl AssertionFailed)
           else if c ! from_axis r = 2 then
             (if c ! to_axis r = 0 then Inr (q\<lparr>coords := c[from_axis r := 2, to_axis r := 2]\<rparr>)
              else if c ! to_axis r = 1 then Inr (q\<lparr>coords := c[from_axis r := 1, to_axis r := 2]\<rparr>)
              else if c ! to_axis r = 2 then Inr (q\<lparr>coords := c[from_axis r := 0, to_axis r := 2]\<rparr>)
              else Inl AssertionFailed)
           else Inl AssertionFailed)"

definition is_in_original_position :: "Point \<Rightarrow> bool" where
  "is_in_original_position p \<longleftrightarrow> coords p = original_coords p"

definition is_in_original_orientation :: "Point \<Rightarrow> bool" where
  "is_in_original_orientation p \<longleftrightarrow> sorted (orientation p)"

definition is_center :: "nat \<Rightarrow> Point \<Rightarrow> bool" where
  "is_center DIMS p \<longleftrightarrow> int (count_list (coords p) 1) = int DIMS - 1"

definition dist_from_original :: "Point \<Rightarrow> int" where
  "dist_from_original p =
     sum_list (map2 (\<lambda>a b. \<bar>int a - int b\<bar>) (coords p) (original_coords p))"

definition incorrectness :: "Point \<Rightarrow> int" where
  "incorrectness p =
     (let smallmod = (if is_in_original_orientation p then 0 else 1)
      in dist_from_original p + smallmod * 10)"

text \<open>The type invariant of \<^verbatim>\<open>Point<DIMS>\<close>: three arrays of \<^verbatim>\<open>DIMS\<close> components.\<close>

definition vec_ok :: "nat \<Rightarrow> Point \<Rightarrow> bool" where
  "vec_ok DIMS p \<longleftrightarrow>
     length (original_coords p) = DIMS \<and> length (coords p) = DIMS \<and>
     length (orientation p) = DIMS"

text \<open>Every coordinate of the point is 0, 1 or 2, which the switch of \<^verbatim>\<open>rotate\<close> asserts.\<close>

definition coords_ok :: "Point \<Rightarrow> bool" where
  "coords_ok p \<longleftrightarrow> list_all (\<lambda>x. x < 3) (coords p)"

subsection \<open>Cube\<close>

record Cube =
  points :: "Point list"

definition NUM_POINTS :: "nat \<Rightarrow> 64 word" where
  "NUM_POINTS DIMS = ipow 3 (int DIMS) 1"

text \<open>
  \<^verbatim>\<open>NUM_POINTS\<close> is a \<^verbatim>\<open>constexpr\<close> member: the compiler evaluates \<^verbatim>\<open>ipow(3, DIMS)\<close>, and
  the program is ill-formed when a multiplication of that evaluation leaves the range of
  \<^verbatim>\<open>int64_t\<close>. \<open>ipow_constexpr\<close> is this evaluation, on unbounded integers, with \<open>None\<close>
  for the overflow; both \<^verbatim>\<open>base * base\<close> and, for an odd exponent, \<^verbatim>\<open>result * base\<close> are
  computed before the recursive call. The initialiser \<^verbatim>\<open>= {0}\<close> of the three arrays of a
  point needs \<open>DIMS \<ge> 1\<close>. \<open>Cube_accepted DIMS\<close> holds of the \<open>DIMS\<close> for which
  \<^verbatim>\<open>Cube<DIMS>\<close> is a well-formed type: they are 1 to 31 (lemma \<open>Cube_accepted_iff\<close>), and
  for them the word \<open>NUM_POINTS DIMS\<close> is the value of the constant (lemma
  \<open>NUM_POINTS_constexpr\<close>). For any other \<open>DIMS\<close> the functions on cubes describe no program.
\<close>

definition in_int64 :: "int \<Rightarrow> bool" where
  "in_int64 x \<longleftrightarrow> - (2 ^ 63) \<le> x \<and> x < 2 ^ 63"

function ipow_constexpr :: "int \<Rightarrow> int \<Rightarrow> int \<Rightarrow> int option" where
  "ipow_constexpr base e result =
     (if e < 1 then Some result
      else if \<not> in_int64 (base * base) then None
      else if e mod 2 \<noteq> 0 \<and> \<not> in_int64 (result * base) then None
      else ipow_constexpr (base * base) (e div 2)
             (if e mod 2 \<noteq> 0 then result * base else result))"
  by pat_completeness auto
termination
  by (relation "measure (\<lambda>(base, e, result). nat e)") auto

declare ipow_constexpr.simps [simp del]

definition Cube_accepted :: "nat \<Rightarrow> bool" where
  "Cube_accepted DIMS \<longleftrightarrow> 0 < DIMS \<and> ipow_constexpr 3 (int DIMS) 1 \<noteq> None"

definition Cube_new :: "nat \<Rightarrow> error + Cube" where
  "Cube_new DIMS =
     (case mapM_res (\<lambda>idx. from_index DIMS (word_of_nat idx)) [0..<unat (NUM_POINTS DIMS)] of
        Inl e \<Rightarrow> Inl e
      | Inr ps \<Rightarrow> Inr \<lparr>points = ps\<rparr>)"

definition Cube_rotate :: "nat \<Rightarrow> Rotation \<Rightarrow> Cube \<Rightarrow> error + Cube" where
  "Cube_rotate DIMS r c =
     (case mapM_res (Point_rotate DIMS r) (points c) of
        Inl e \<Rightarrow> Inl e
      | Inr ps \<Rightarrow> Inr (c\<lparr>points := ps\<rparr>))"

fun rotate_n :: "nat \<Rightarrow> Rotation \<Rightarrow> nat \<Rightarrow> Cube \<Rightarrow> error + Cube" where
  "rotate_n DIMS r 0 c = Inr c"
| "rotate_n DIMS r (Suc n) c =
     (case Cube_rotate DIMS r c of Inl e \<Rightarrow> Inl e | Inr c' \<Rightarrow> rotate_n DIMS r n c')"

definition undo_rotation :: "nat \<Rightarrow> Rotation \<Rightarrow> Cube \<Rightarrow> error + Cube" where
  "undo_rotation DIMS r c = rotate_n DIMS r 3 c"

definition is_solved :: "nat \<Rightarrow> Cube \<Rightarrow> bool" where
  "is_solved DIMS c \<longleftrightarrow>
     list_all (\<lambda>p. is_in_original_position p \<and>
                   (is_in_original_orientation p \<or> is_center DIMS p)) (points c)"

text \<open>A 32-bit \<^verbatim>\<open>int\<close> accumulator: the sum, reduced to the range of \<^verbatim>\<open>int\<close>.\<close>

definition int_wrap :: "int \<Rightarrow> int" where
  "int_wrap x = sint (word_of_int x :: 32 word)"

definition unsolvedness :: "Cube \<Rightarrow> int" where
  "unsolvedness c = int_wrap (sum_list (map incorrectness (points c)))"

subsection \<open>The random source\<close>

text \<open>
  \<^verbatim>\<open>rand()\<close> reads a process-wide generator. Here the generator is the list of the values
  the next calls return, each a natural number (\<^verbatim>\<open>rand()\<close> is never negative), threaded
  through every function that draws. The list is finite: a loop that asks for more values
  than the list holds has the result \<open>None\<close>, which stands for a run that has not returned
  within the draws granted.
\<close>

type_synonym rng = "nat list"

definition rand :: "rng \<Rightarrow> (nat \<times> rng) option" where
  "rand rs = (case rs of [] \<Rightarrow> None | x # rs' \<Rightarrow> Some (x, rs'))"

text \<open>The loops \<^verbatim>\<open>while (clash(v)) { v = rand() % DIMS; }\<close> of \<^verbatim>\<open>Rotation::random\<close>.\<close>

fun reroll :: "nat \<Rightarrow> (nat \<Rightarrow> bool) \<Rightarrow> nat \<Rightarrow> rng \<Rightarrow> (nat \<times> rng) option" where
  "reroll DIMS clash v [] = (if clash v then None else Some (v, []))"
| "reroll DIMS clash v (x # rs) =
     (if clash v then reroll DIMS clash (x mod DIMS) rs else Some (v, x # rs))"

text \<open>The cast \<^verbatim>\<open>(Side)side\<close> of a value that is 0 or 2.\<close>

definition Side_of :: "nat \<Rightarrow> Side" where
  "Side_of v = (if v = 0 then FRONT else BACK)"

definition Rotation_random :: "nat \<Rightarrow> rng \<Rightarrow> (error + Rotation \<times> rng) option" where
  "Rotation_random DIMS rs =
     (case rand rs of None \<Rightarrow> None | Some (x0, rs0) \<Rightarrow>
      (case rand rs0 of None \<Rightarrow> None | Some (x1, rs1) \<Rightarrow>
       if DIMS = 0 then Some (Inl DivisionByZero)
       else
       (case rand rs1 of None \<Rightarrow> None | Some (x2, rs2) \<Rightarrow>
        (case reroll DIMS (\<lambda>v. v = x1 mod DIMS) (x2 mod DIMS) rs2 of
           None \<Rightarrow> None
         | Some (from, rs3) \<Rightarrow>
        (case rand rs3 of None \<Rightarrow> None | Some (x3, rs4) \<Rightarrow>
         (case reroll DIMS (\<lambda>v. v = x1 mod DIMS \<or> v = from) (x3 mod DIMS) rs4 of
            None \<Rightarrow> None
          | Some (to, rs5) \<Rightarrow>
              Some (Inr (\<lparr>axis = x1 mod DIMS, from_axis = from, to_axis = to,
                          side = Side_of ((x0 AND 1) * 2)\<rparr>, rs5))))))))"

subsection \<open>The solver\<close>

text \<open>
  One pass through the body of the \<^verbatim>\<open>while\<close> loop of \<^verbatim>\<open>Cube::solve\<close>, on the cube, the
  vector \<^verbatim>\<open>rotations\<close> and the random source. The line written to \<^verbatim>\<open>std::cout\<close> is not
  part of the state.
\<close>

definition solve_iteration ::
  "nat \<Rightarrow> Cube \<Rightarrow> Rotation list \<Rightarrow> rng \<Rightarrow> (error + Cube \<times> Rotation list \<times> rng) option" where
  "solve_iteration DIMS c rotations rs =
     (let last_unsolvedness = unsolvedness c in
      case Rotation_random DIMS rs of
        None \<Rightarrow> None
      | Some (Inl e) \<Rightarrow> Some (Inl e)
      | Some (Inr (r, rs1)) \<Rightarrow>
          (case Cube_rotate DIMS r c of
             Inl e \<Rightarrow> Some (Inl e)
           | Inr c1 \<Rightarrow>
               let rotations1 = rotations @ [r] in
               (case rand rs1 of
                  None \<Rightarrow> None
                | Some (x, rs2) \<Rightarrow>
                    let random_value = x mod 100;
                        current_unsolvedness = unsolvedness c1
                    in if current_unsolvedness > last_unsolvedness then
                         (if random_value < 90 then
                            (case undo_rotation DIMS r c1 of
                               Inl e \<Rightarrow> Some (Inl e)
                             | Inr c2 \<Rightarrow> Some (Inr (c2, butlast rotations1, rs2)))
                          else Some (Inr (c1, rotations1, rs2)))
                       else
                         (if random_value < 10 then
                            (case undo_rotation DIMS r c1 of
                               Inl e \<Rightarrow> Some (Inl e)
                             | Inr c2 \<Rightarrow> Some (Inr (c2, butlast rotations1, rs2)))
                          else Some (Inr (c1, rotations1, rs2))))))"

function solve ::
  "nat \<Rightarrow> Cube \<Rightarrow> Rotation list \<Rightarrow> rng \<Rightarrow> (error + Cube \<times> Rotation list) option" where
  "solve DIMS c rotations rs =
     (if is_solved DIMS c then Some (Inr (c, rotations))
      else
        (case solve_iteration DIMS c rotations rs of
           None \<Rightarrow> None
         | Some (Inl e) \<Rightarrow> Some (Inl e)
         | Some (Inr (c', rotations', rs')) \<Rightarrow> solve DIMS c' rotations' rs'))"
  by pat_completeness auto
termination
proof (relation "measure (\<lambda>(DIMS, c, rotations, rs). length rs)", goal_cases)
  case 1
  show ?case by simp
next
  case prems: 2
  have reroll_le: "length rs1 \<le> length rs0"
    if "reroll D clash v rs0 = Some (w, rs1)" for D clash v rs0 w rs1
    using that by (induction D clash v rs0 rule: reroll.induct) (auto split: if_splits)
  show ?case
    using prems
    by (auto simp: solve_iteration_def Rotation_random_def rand_def Let_def
        split: option.splits sum.splits list.splits if_splits prod.splits
        dest!: reroll_le)
qed

declare solve.simps [simp del]

section \<open>Auxiliary definitions\<close>

text \<open>
  The nine-entry table of the specification, keyed by the pair
  \<open>(coords[from], coords[to])\<close> before the update. It is written from the
  specification's words and compared with \<open>Point_rotate\<close> below.
\<close>

definition rotation_table :: "((nat \<times> nat) \<times> (nat \<times> nat)) list" where
  "rotation_table =
     [((0, 0), (2, 0)), ((0, 1), (1, 0)), ((0, 2), (0, 0)),
      ((1, 0), (2, 1)), ((1, 1), (1, 1)), ((1, 2), (0, 1)),
      ((2, 0), (2, 2)), ((2, 1), (1, 2)), ((2, 2), (0, 2))]"

text \<open>
  A closed form of the switch of \<^verbatim>\<open>Point::rotate\<close> on coordinate vectors, and of the whole
  method on points whose coordinates are 0, 1 or 2 (lemma \<open>Point_rotate_turn\<close>).
\<close>

definition rotate_coords :: "Rotation \<Rightarrow> vec \<Rightarrow> vec" where
  "rotate_coords r v =
     (if v ! axis r \<noteq> side_value (side r) then v
      else v[from_axis r := 2 - v ! to_axis r, to_axis r := v ! from_axis r])"

definition turn :: "Rotation \<Rightarrow> Point \<Rightarrow> Point" where
  "turn r p =
     (if coords p ! axis r \<noteq> side_value (side r) then p
      else p\<lparr>orientation := swap_at (orientation p) (from_axis r) (to_axis r),
             coords := rotate_coords r (coords p)\<rparr>)"

text \<open>The data invariant of a point, and of every point of a cube.\<close>

definition point_ok :: "nat \<Rightarrow> Point \<Rightarrow> bool" where
  "point_ok DIMS p \<longleftrightarrow> vec_ok DIMS p \<and> coords_ok p"

definition cube_ok :: "nat \<Rightarrow> Cube \<Rightarrow> bool" where
  "cube_ok DIMS c \<longleftrightarrow> list_all (point_ok DIMS) (points c)"

text \<open>
  The mixed-radix-3 encoding of a coordinate vector, \<open>\<Sum>d. coords[d] * 3 ^ d\<close>, which the
  specification uses to state the round trip of \<^verbatim>\<open>from_index\<close>, and the digits of a number.
\<close>

definition encode :: "vec \<Rightarrow> nat" where
  "encode v = sum_list (map (\<lambda>d. v ! d * 3 ^ d) [0..<length v])"

definition digits :: "nat \<Rightarrow> nat \<Rightarrow> vec" where
  "digits DIMS m = map (\<lambda>d. (m div 3 ^ d) mod 3) [0..<DIMS]"

text \<open>The rotation and the two points of the examples.\<close>

abbreviation top_turn :: Rotation where
  "top_turn \<equiv> \<lparr>axis = 1, from_axis = 2, to_axis = 0, side = BACK\<rparr>"

abbreviation top_edge :: Point where
  "top_edge \<equiv> \<lparr>original_coords = [0, 2, 1], coords = [0, 2, 1], orientation = [0, 1, 2]\<rparr>"

abbreviation bottom_edge :: Point where
  "bottom_edge \<equiv> \<lparr>original_coords = [0, 0, 1], coords = [0, 0, 1], orientation = [0, 1, 2]\<rparr>"

text \<open>The grid \<open>{0, 1, 2} ^ DIMS\<close> of coordinate vectors.\<close>

definition grid :: "nat \<Rightarrow> vec set" where
  "grid DIMS = {v. length v = DIMS \<and> list_all (\<lambda>x. x < 3) v}"

text \<open>
  The states the program can bring a cube into: the constructor's, and every state a valid
  rotation makes of one of them.
\<close>

inductive reachable :: "nat \<Rightarrow> Cube \<Rightarrow> bool" for DIMS :: nat where
  fresh: "Cube_new DIMS = Inr c \<Longrightarrow> reachable DIMS c"
| rotated: "reachable DIMS c \<Longrightarrow> valid_rotation DIMS r \<Longrightarrow> Cube_rotate DIMS r c = Inr c' \<Longrightarrow>
     reachable DIMS c'"

text \<open>
  The data invariant of a cube: well-formed points, the initial positions in index order,
  and current positions that are a rearrangement of the initial ones.
\<close>

definition cube_inv :: "nat \<Rightarrow> Cube \<Rightarrow> bool" where
  "cube_inv DIMS c \<longleftrightarrow>
     cube_ok DIMS c \<and>
     map original_coords (points c) = map (digits DIMS) [0..<3 ^ DIMS] \<and>
     mset (map coords (points c)) = mset (map original_coords (points c))"

text \<open>
  A sequence of rotations applied in order, as the loop of \<^verbatim>\<open>main\<close> applies the rotations
  the user entered. The fourteen rotations of \<open>centre_twist\<close> turn two face centres of the
  3x3x3 cube by a quarter and bring every other point back; \<open>twisted\<close> is the state
  they make of the fresh cube.
\<close>

fun rotate_all :: "nat \<Rightarrow> Rotation list \<Rightarrow> Cube \<Rightarrow> error + Cube" where
  "rotate_all DIMS [] c = Inr c"
| "rotate_all DIMS (r # rs) c =
     (case Cube_rotate DIMS r c of Inl e \<Rightarrow> Inl e | Inr c' \<Rightarrow> rotate_all DIMS rs c')"

definition centre_twist :: "Rotation list" where
  "centre_twist =
     [\<lparr>axis = 0, from_axis = 2, to_axis = 1, side = FRONT\<rparr>,
      \<lparr>axis = 0, from_axis = 2, to_axis = 1, side = BACK\<rparr>,
      \<lparr>axis = 2, from_axis = 1, to_axis = 0, side = BACK\<rparr>,
      \<lparr>axis = 2, from_axis = 1, to_axis = 0, side = FRONT\<rparr>,
      \<lparr>axis = 1, from_axis = 0, to_axis = 2, side = BACK\<rparr>,
      \<lparr>axis = 1, from_axis = 0, to_axis = 2, side = FRONT\<rparr>,
      \<lparr>axis = 0, from_axis = 2, to_axis = 1, side = BACK\<rparr>,
      \<lparr>axis = 1, from_axis = 2, to_axis = 0, side = BACK\<rparr>,
      \<lparr>axis = 1, from_axis = 2, to_axis = 0, side = FRONT\<rparr>,
      \<lparr>axis = 2, from_axis = 0, to_axis = 1, side = BACK\<rparr>,
      \<lparr>axis = 2, from_axis = 0, to_axis = 1, side = FRONT\<rparr>,
      \<lparr>axis = 0, from_axis = 1, to_axis = 2, side = FRONT\<rparr>,
      \<lparr>axis = 0, from_axis = 1, to_axis = 2, side = BACK\<rparr>,
      \<lparr>axis = 1, from_axis = 2, to_axis = 0, side = BACK\<rparr>]"

definition twisted :: "error + Cube" where
  "twisted = (case Cube_new 3 of Inl e \<Rightarrow> Inl e | Inr c \<Rightarrow> rotate_all 3 centre_twist c)"

text \<open>The 3x3x3 cube as constructed.\<close>

abbreviation fresh3 :: Cube where
  "fresh3 \<equiv> projr (Cube_new 3)"

section \<open>The examples, evaluated\<close>

lemma fresh3_facts:
  "Cube_new 3 = Inr fresh3" "cube_ok 3 fresh3"
  "unsolvedness fresh3 = 0" 
  "unsolvedness (projr (Cube_rotate 3 top_turn fresh3)) = 106"
  "\<not> is_solved 3 (projr (Cube_rotate 3 top_turn fresh3))"
  by code_simp+

lemma random_demo:
  "Rotation_random 3 [1, 1, 2, 0, 95] = Some (Inr (top_turn, [95]))"
  "Rotation_random 3 [1, 1, 2, 0, 50] = Some (Inr (top_turn, [50]))"
  "Rotation_random 3 [1, 1, 1, 4, 2, 0, 1, 3] = Some (Inr (top_turn, [1, 3]))"
  by code_simp+

section \<open>A single point under a rotation\<close>

lemma lt3_cases: "(x::nat) < 3 \<Longrightarrow> x = 0 \<or> x = 1 \<or> x = 2"
  by arith

lemma coords_okD: "coords_ok p \<Longrightarrow> k < length (coords p) \<Longrightarrow> coords p ! k < 3"
  by (simp add: coords_ok_def list_all_length)

lemma Point_rotate_off_slice:
  "valid_rotation DIMS r \<Longrightarrow> coords p ! axis r \<noteq> side_value (side r) \<Longrightarrow>
   Point_rotate DIMS r p = Inr p"
  by (simp add: Point_rotate_def valid_rotation_def)

lemma Point_rotate_on_slice:
  assumes r: "valid_rotation DIMS r" and len: "length (coords p) = DIMS"
    and on: "coords p ! axis r = side_value (side r)"
    and f: "coords p ! from_axis r < 3" and t: "coords p ! to_axis r < 3"
  shows "Point_rotate DIMS r p =
     Inr (p\<lparr>orientation := swap_at (orientation p) (from_axis r) (to_axis r),
            coords := (coords p)[from_axis r := 2 - coords p ! to_axis r,
                                 to_axis r := coords p ! from_axis r]\<rparr>)"
proof -
  have lf: "from_axis r < length (coords p)" and lt: "to_axis r < length (coords p)"
    and ne: "from_axis r \<noteq> to_axis r"
    using r len by (simp_all add: valid_rotation_def)
  have same: "(coords p)[from_axis r := 1, to_axis r := 1] = coords p"
    if "coords p ! from_axis r = 1" "coords p ! to_axis r = 1"
    using that by (metis list_update_id)
  from lt3_cases [OF f] lt3_cases [OF t] show ?thesis
    using r on same by (auto simp: Point_rotate_def valid_rotation_def Let_def)
qed

text \<open>
  Claim C1. For a valid rotation \<open>r\<close> and a point on the affected slice
  (\<open>coords[r.axis] = r.side\<close>), \<^verbatim>\<open>Point::rotate\<close> succeeds and replaces the pair
  \<open>(coords[r.from], coords[r.to])\<close> by the entry the nine-entry table of the specification
  has for the pair's value before the update; no other coordinate changes.
\<close>

theorem rotate_follows_table:
  assumes "valid_rotation DIMS r" and "vec_ok DIMS p"
    and "coords p ! axis r = side_value (side r)"
    and "map_of rotation_table (coords p ! from_axis r, coords p ! to_axis r) = Some (a, b)"
  shows "\<exists>p'. Point_rotate DIMS r p = Inr p' \<and>
           coords p' ! from_axis r = a \<and> coords p' ! to_axis r = b \<and>
           coords p' = (coords p)[from_axis r := a, to_axis r := b]"
proof -
  have len: "length (coords p) = DIMS"
    using assms(2) by (simp add: vec_ok_def)
  have lf: "from_axis r < length (coords p)" and lt: "to_axis r < length (coords p)"
    and ne: "from_axis r \<noteq> to_axis r"
    using assms(1) len by (simp_all add: valid_rotation_def)
  have key: "coords p ! from_axis r < 3 \<and> coords p ! to_axis r < 3 \<and>
             a = 2 - coords p ! to_axis r \<and> b = coords p ! from_axis r"
    using assms(4) by (auto simp: rotation_table_def split: if_splits)
  then show ?thesis
    using Point_rotate_on_slice [OF assms(1) len assms(3)] lf lt ne by simp
qed

theorem rotate_follows_table_witness:
  "valid_rotation 3 top_turn \<and> vec_ok 3 top_edge \<and>
   coords top_edge ! axis top_turn = side_value (side top_turn) \<and>
   map_of rotation_table (coords top_edge ! from_axis top_turn, coords top_edge ! to_axis top_turn)
     = Some (2, 1) \<and>
   (\<exists>p'. Point_rotate 3 top_turn top_edge = Inr p' \<and>
      coords p' ! from_axis top_turn = 2 \<and> coords p' ! to_axis top_turn = 1 \<and>
      coords p' = (coords top_edge)[from_axis top_turn := 2, to_axis top_turn := 1])"
proof -
  have 1: "valid_rotation 3 top_turn"
    by (simp add: valid_rotation_def)
  have 2: "vec_ok 3 top_edge"
    by (simp add: vec_ok_def)
  have 3: "coords top_edge ! axis top_turn = side_value (side top_turn)"
    by simp
  have 4: "map_of rotation_table
      (coords top_edge ! from_axis top_turn, coords top_edge ! to_axis top_turn) = Some (2, 1)"
    by (simp add: rotation_table_def)
  from rotate_follows_table [OF 1 2 3 4] 1 2 3 4 show ?thesis
    by blast
qed

lemma length_rotate_coords [simp]: "length (rotate_coords r v) = length v"
  by (simp add: rotate_coords_def)

lemma rotate_coords_axis:
  "valid_rotation DIMS r \<Longrightarrow> rotate_coords r v ! axis r = v ! axis r"
  by (simp add: rotate_coords_def valid_rotation_def)

lemma rotate_coords_bound:
  assumes "valid_rotation DIMS r" and "length v = DIMS" and "list_all (\<lambda>x. x < 3) v"
  shows "list_all (\<lambda>x. x < 3) (rotate_coords r v)"
proof -
  have lf: "from_axis r < length v" and lt: "to_axis r < length v"
    using assms(1,2) by (auto simp: valid_rotation_def)
  have "\<forall>k < length v. v ! k < 3"
    using assms(3) by (simp add: list_all_length)
  then show ?thesis
    using lf lt by (auto simp: rotate_coords_def list_all_length nth_list_update)
qed

lemma rotate_coords_twice:
  assumes "valid_rotation DIMS r" and "length v = DIMS"
    and "v ! axis r = side_value (side r)"
  shows "rotate_coords r (rotate_coords r v) =
         v[from_axis r := 2 - v ! from_axis r, to_axis r := 2 - v ! to_axis r]"
proof -
  have lf: "from_axis r < length v" and lt: "to_axis r < length v"
    and ne: "from_axis r \<noteq> to_axis r" "axis r \<noteq> from_axis r" "axis r \<noteq> to_axis r"
    using assms(1,2) by (auto simp: valid_rotation_def)
  show ?thesis
    using lf lt ne assms(3)
    by (intro nth_equalityI) (auto simp: rotate_coords_def nth_list_update)
qed

lemma rotate_coords_four:
  assumes r: "valid_rotation DIMS r" and len: "length v = DIMS"
    and ok: "list_all (\<lambda>x. x < 3) v"
  shows "rotate_coords r (rotate_coords r (rotate_coords r (rotate_coords r v))) = v"
proof (cases "v ! axis r = side_value (side r)")
  case False
  then show ?thesis by (simp add: rotate_coords_def)
next
  case True
  let ?w = "rotate_coords r (rotate_coords r v)"
  have lf: "from_axis r < length v" and lt: "to_axis r < length v"
    and ne: "from_axis r \<noteq> to_axis r" "axis r \<noteq> from_axis r" "axis r \<noteq> to_axis r"
    using r len by (auto simp: valid_rotation_def)
  have w: "?w = v[from_axis r := 2 - v ! from_axis r, to_axis r := 2 - v ! to_axis r]"
    by (rule rotate_coords_twice [OF r len True])
  have wa: "?w ! axis r = side_value (side r)"
    using True r by (simp add: rotate_coords_axis)
  have "rotate_coords r (rotate_coords r ?w) =
        ?w[from_axis r := 2 - ?w ! from_axis r, to_axis r := 2 - ?w ! to_axis r]"
    by (rule rotate_coords_twice [OF r _ wa]) (simp add: len)
  also have "\<dots> = v"
  proof -
    have "v ! from_axis r < 3" "v ! to_axis r < 3"
      using ok lf lt by (simp_all add: list_all_length)
    then show ?thesis
      unfolding w using lf lt ne
      by (intro nth_equalityI) (auto simp: nth_list_update)
  qed
  finally show ?thesis .
qed

lemma swap_at_twice:
  "i < length xs \<Longrightarrow> j < length xs \<Longrightarrow> swap_at (swap_at xs i j) i j = xs"
  by (intro nth_equalityI) (auto simp: swap_at_def nth_list_update)

lemma length_swap_at [simp]: "length (swap_at xs i j) = length xs"
  by (simp add: swap_at_def)

lemma Point_rotate_turn:
  assumes "valid_rotation DIMS r" and "point_ok DIMS p"
  shows "Point_rotate DIMS r p = Inr (turn r p)"
proof (cases "coords p ! axis r = side_value (side r)")
  case False
  then show ?thesis
    using assms(1) by (simp add: Point_rotate_off_slice turn_def)
next
  case True
  have len: "length (coords p) = DIMS" and ok: "coords_ok p"
    using assms(2) by (simp_all add: point_ok_def vec_ok_def)
  have "from_axis r < length (coords p)" "to_axis r < length (coords p)"
    using assms(1) len by (simp_all add: valid_rotation_def)
  then have "coords p ! from_axis r < 3" "coords p ! to_axis r < 3"
    using ok by (simp_all add: coords_okD)
  from Point_rotate_on_slice [OF assms(1) len True this] show ?thesis
    using True by (simp add: turn_def rotate_coords_def)
qed

lemma point_ok_turn:
  "valid_rotation DIMS r \<Longrightarrow> point_ok DIMS p \<Longrightarrow> point_ok DIMS (turn r p)"
  by (simp add: point_ok_def vec_ok_def coords_ok_def turn_def rotate_coords_bound)

lemma turn_four:
  assumes r: "valid_rotation DIMS r" and p: "point_ok DIMS p"
  shows "turn r (turn r (turn r (turn r p))) = p"
proof (cases "coords p ! axis r = side_value (side r)")
  case False
  then show ?thesis by (simp add: turn_def)
next
  case True
  have len: "length (coords p) = DIMS" "length (orientation p) = DIMS"
    and ok: "list_all (\<lambda>x. x < 3) (coords p)"
    using p by (simp_all add: point_ok_def vec_ok_def coords_ok_def)
  have lo: "from_axis r < length (orientation p)" "to_axis r < length (orientation p)"
    using r len by (simp_all add: valid_rotation_def)
  have ax: "rotate_coords r v ! axis r = v ! axis r" for v
    using r by (rule rotate_coords_axis)
  show ?thesis
    using True
    by (simp add: turn_def ax rotate_coords_four [OF r len(1) ok] swap_at_twice lo)
qed

lemma mapM_res_total:
  "(\<And>x. x \<in> set xs \<Longrightarrow> f x = Inr (g x)) \<Longrightarrow> mapM_res f xs = Inr (map g xs)"
  by (induction xs) simp_all

lemma Cube_rotate_turn:
  assumes "valid_rotation DIMS r" and "cube_ok DIMS c"
  shows "Cube_rotate DIMS r c = Inr (c\<lparr>points := map (turn r) (points c)\<rparr>)"
proof -
  have "mapM_res (Point_rotate DIMS r) (points c) = Inr (map (turn r) (points c))"
    using assms by (intro mapM_res_total Point_rotate_turn) (simp_all add: cube_ok_def list_all_iff)
  then show ?thesis by (simp add: Cube_rotate_def)
qed

lemma cube_ok_turn:
  "valid_rotation DIMS r \<Longrightarrow> cube_ok DIMS c \<Longrightarrow>
   cube_ok DIMS (c\<lparr>points := map (turn r) (points c)\<rparr>)"
  by (simp add: cube_ok_def list_all_iff point_ok_turn)

lemma rotate_n_turn:
  assumes "valid_rotation DIMS r"
  shows "cube_ok DIMS c \<Longrightarrow>
    rotate_n DIMS r n c = Inr (c\<lparr>points := map ((turn r) ^^ n) (points c)\<rparr>)"
proof (induction n arbitrary: c)
  case 0
  then show ?case by simp
next
  case (Suc n)
  have "rotate_n DIMS r (Suc n) c = rotate_n DIMS r n (c\<lparr>points := map (turn r) (points c)\<rparr>)"
    by (simp add: Cube_rotate_turn [OF assms Suc.prems])
  also have "\<dots> = Inr (c\<lparr>points := map ((turn r) ^^ n) (map (turn r) (points c))\<rparr>)"
    using Suc.IH [OF cube_ok_turn [OF assms Suc.prems]] by simp
  finally show ?case
    by (simp add: funpow_swap1 comp_def)
qed

text \<open>
  Claim C7. For a valid rotation \<open>r\<close> and a point \<open>p\<close>: when \<open>coords[r.axis] \<noteq> r.side\<close>,
  \<^verbatim>\<open>Point::rotate(r)\<close> returns \<open>p\<close> itself, coordinates and orientation unchanged; whenever it
  returns, \<open>coords[r.axis]\<close> is what it was; and it does return for every point of \<open>DIMS\<close>
  components whose coordinates are 0, 1 or 2.
\<close>

theorem rotate_frame:
  assumes "valid_rotation DIMS r"
  shows "(coords p ! axis r \<noteq> side_value (side r) \<longrightarrow> Point_rotate DIMS r p = Inr p) \<and>
         (\<forall>p'. Point_rotate DIMS r p = Inr p' \<longrightarrow> coords p' ! axis r = coords p ! axis r) \<and>
         (point_ok DIMS p \<longrightarrow> (\<exists>p'. Point_rotate DIMS r p = Inr p'))"
proof -
  have ne: "axis r \<noteq> from_axis r" "axis r \<noteq> to_axis r"
    using assms by (auto simp: valid_rotation_def)
  have 1: "coords p ! axis r \<noteq> side_value (side r) \<Longrightarrow> Point_rotate DIMS r p = Inr p"
    using assms by (rule Point_rotate_off_slice)
  have 2: "coords p' ! axis r = coords p ! axis r" if "Point_rotate DIMS r p = Inr p'" for p'
    using that ne
    by (auto simp: Point_rotate_def Let_def split: if_splits)
  have 3: "\<exists>p'. Point_rotate DIMS r p = Inr p'" if "point_ok DIMS p"
    using Point_rotate_turn [OF assms that] by simp
  from 1 2 3 show ?thesis by blast
qed

theorem rotate_frame_witness:
  "valid_rotation 3 top_turn \<and>
   coords bottom_edge ! axis top_turn \<noteq> side_value (side top_turn) \<and>
   Point_rotate 3 top_turn bottom_edge = Inr bottom_edge \<and>
   point_ok 3 top_edge \<and>
   (\<exists>p'. Point_rotate 3 top_turn top_edge = Inr p' \<and> p' \<noteq> top_edge \<and>
      coords p' ! axis top_turn = coords top_edge ! axis top_turn)"
proof -
  have 1: "valid_rotation 3 top_turn"
    by (simp add: valid_rotation_def)
  have 3: "coords bottom_edge ! axis top_turn \<noteq> side_value (side top_turn)"
    by simp
  have 4: "point_ok 3 top_edge"
    by (simp add: point_ok_def vec_ok_def coords_ok_def)
  have 5: "Point_rotate 3 top_turn top_edge =
      Inr \<lparr>original_coords = [0, 2, 1], coords = [1, 2, 2], orientation = [2, 1, 0]\<rparr>"
    by (simp add: Point_rotate_def swap_at_def)
  from rotate_frame [OF 1, of bottom_edge] rotate_frame [OF 1, of top_edge] 1 3 4 5
  show ?thesis
    by auto
qed

section \<open>The cube under a rotation\<close>

lemma rotate_four_identity:
  assumes "valid_rotation DIMS r" and "cube_ok DIMS c"
  shows "rotate_n DIMS r 4 c = Inr c"
proof -
  have "map ((turn r) ^^ 4) (points c) = points c"
    using assms by (intro map_idI) (simp add: numeral_eq_Suc turn_four cube_ok_def list_all_iff)
  then show ?thesis
    by (simp add: rotate_n_turn [OF assms])
qed

lemma rotate_then_undo:
  assumes "valid_rotation DIMS r" and "cube_ok DIMS c"
  shows "\<exists>c1. Cube_rotate DIMS r c = Inr c1 \<and> undo_rotation DIMS r c1 = Inr c"
proof -
  have "rotate_n DIMS r (Suc 3) c = Inr c"
    using rotate_four_identity [OF assms] by simp
  then show ?thesis
    unfolding undo_rotation_def rotate_n.simps
    by (simp add: Cube_rotate_turn [OF assms])
qed

text \<open>
  Claim C2. For a valid rotation \<open>r\<close> and a cube whose points have \<open>DIMS\<close> components each
  and coordinates 0, 1 or 2, four applications of \<^verbatim>\<open>Cube::rotate(r)\<close> succeed and return the
  cube itself, every point with its coordinates and its orientation; and
  \<^verbatim>\<open>Cube::rotate(r)\<close> followed by \<^verbatim>\<open>Cube::undo_rotation(r)\<close> is the identity on the state.
\<close>

theorem four_rotations_identity:
  assumes "valid_rotation DIMS r" and "cube_ok DIMS c"
  shows "rotate_n DIMS r 4 c = Inr c \<and>
         (\<exists>c1. Cube_rotate DIMS r c = Inr c1 \<and> undo_rotation DIMS r c1 = Inr c)"
  using rotate_four_identity [OF assms] rotate_then_undo [OF assms] by simp

theorem four_rotations_identity_witness:
  "valid_rotation 3 top_turn \<and> cube_ok 3 fresh3 \<and>
   rotate_n 3 top_turn 4 fresh3 = Inr fresh3 \<and>
   (\<exists>c1. Cube_rotate 3 top_turn fresh3 = Inr c1 \<and> \<not> is_solved 3 c1 \<and>
      undo_rotation 3 top_turn c1 = Inr fresh3)"
proof -
  have 1: "valid_rotation 3 top_turn"
    by (simp add: valid_rotation_def)
  have 2: "cube_ok 3 fresh3"
    by (rule fresh3_facts)
  from four_rotations_identity [OF 1 2] fresh3_facts(5) 1 2 show ?thesis
    by auto
qed

section \<open>Indices and coordinates\<close>

lemma ipow_eq: "ipow base e result = result * base ^ nat e"
proof (induction base e result rule: ipow.induct)
  case (1 base e result)
  show ?case
  proof (cases "e < 1")
    case True
    then show ?thesis by (subst ipow.simps) simp
  next
    case False
    then have "int (2 * nat (e div 2) + nat (e mod 2)) = e"
      by simp
    then have e: "nat e = 2 * nat (e div 2) + nat (e mod 2)"
      by (metis nat_int)
    have sq: "(base * base) ^ nat (e div 2) = base ^ (2 * nat (e div 2))"
      by (simp add: power_mult power2_eq_square)
    have m: "e mod 2 = 0 \<or> e mod 2 = 1" by presburger
    have "ipow base e result =
          ipow (base * base) (e div 2) (if e mod 2 \<noteq> 0 then result * base else result)"
      using False by (subst ipow.simps) simp
    also have "\<dots> = (if e mod 2 \<noteq> 0 then result * base else result) * (base * base) ^ nat (e div 2)"
      using "1.IH" [OF False] by simp
    also have "\<dots> = result * base ^ nat e"
      using m by (subst e) (auto simp: sq power_add)
    finally show ?thesis .
  qed
qed

lemma ipow_3: "ipow 3 (int k) 1 = 3 ^ k"
  by (simp add: ipow_eq)

lemma pow3_word_nonzero: "(3::64 word) ^ k \<noteq> 0"
proof
  assume "(3::64 word) ^ k = 0"
  then have "even ((3::64 word) ^ k)" by simp
  then show False by simp
qed

lemma index_digit_eq: "index_digit i d = Inr (unat ((i div 3 ^ d) mod 3))"
  by (simp add: index_digit_def ipow_3 pow3_word_nonzero Let_def)

lemma pow3_40: "(3::nat) ^ 40 < 2 ^ 64"
  by simp

lemma pow3_lt: "k \<le> 40 \<Longrightarrow> (3::nat) ^ k < 2 ^ 64"
proof -
  assume "k \<le> 40"
  then have "(3::nat) ^ k \<le> 3 ^ 40" by (intro power_increasing) simp_all
  with pow3_40 show ?thesis by linarith
qed

lemma unat_pow3: "k \<le> 40 \<Longrightarrow> unat ((3::64 word) ^ k) = 3 ^ k"
proof -
  assume k: "k \<le> 40"
  have "(3::64 word) ^ k = word_of_nat (3 ^ k)" by simp
  then have "unat ((3::64 word) ^ k) = 3 ^ k mod 2 ^ 64"
    by (simp only: unat_of_nat) simp
  with pow3_lt [OF k] show ?thesis by simp
qed

lemma unat_digit: "d \<le> 40 \<Longrightarrow> unat (((i::64 word) div 3 ^ d) mod 3) = (unat i div 3 ^ d) mod 3"
  by (simp add: unat_mod unat_div unat_pow3)

lemma from_index_total:
  "from_index DIMS i = Inr (Point_create DIMS (map (\<lambda>d. unat ((i div 3 ^ d) mod 3)) [0..<DIMS]))"
  by (simp add: from_index_def mapM_res_total [where g = "\<lambda>d. unat ((i div 3 ^ d) mod 3)"] index_digit_eq)

lemma from_index_digits:
  assumes "DIMS \<le> 41"
  shows "from_index DIMS i = Inr (Point_create DIMS (digits DIMS (unat i)))"
proof -
  have "map (\<lambda>d. unat ((i div 3 ^ d) mod 3)) [0..<DIMS] = digits DIMS (unat i)"
    unfolding digits_def using assms by (intro map_cong refl unat_digit) simp
  then show ?thesis by (simp add: from_index_total)
qed

lemma encode_digits: "encode (digits n m) = m mod 3 ^ n"
proof -
  have "sum_list (map (\<lambda>d. ((m div 3 ^ d) mod 3) * 3 ^ d) [0..<n]) = m mod 3 ^ n"
  proof (induction n)
    case 0
    then show ?case by simp
  next
    case (Suc n)
    have "m mod (3 ^ n * 3) = 3 ^ n * (m div 3 ^ n mod 3) + m mod 3 ^ n"
      by (rule mod_mult2_eq)
    with Suc show ?case by (simp add: mult.commute)
  qed
  moreover have "map (\<lambda>d. digits n m ! d * 3 ^ d) [0..<n] = map (\<lambda>d. ((m div 3 ^ d) mod 3) * 3 ^ d) [0..<n]"
    by (intro map_cong refl) (simp add: digits_def)
  moreover have "length (digits n m) = n"
    by (simp add: digits_def)
  ultimately show ?thesis by (simp only: encode_def)
qed

text \<open>
  Claim C9, as the code has it. For \<open>DIMS \<le> 41\<close> and every index \<open>i < 3 ^ DIMS\<close>,
  \<^verbatim>\<open>Point::from_index(i)\<close> returns a point with \<open>coords[d] = (i / 3 ^ d) mod 3\<close> for each
  \<open>d < DIMS\<close>, and the mixed-radix-3 encoding \<open>\<Sum>d. coords[d] * 3 ^ d\<close> of that vector is
  \<open>i\<close>.
\<close>

theorem from_index_roundtrip:
  assumes "DIMS \<le> 41" and "unat i < 3 ^ DIMS"
  shows "\<exists>p. from_index DIMS i = Inr p \<and>
           (\<forall>d<DIMS. coords p ! d = (unat i div 3 ^ d) mod 3) \<and>
           encode (coords p) = unat i"
  using assms
  by (simp add: from_index_digits Point_create_def encode_digits) (simp add: digits_def)

theorem from_index_roundtrip_witness:
  "(3::nat) \<le> 41 \<and> unat (19 :: 64 word) < 3 ^ 3 \<and>
   (\<exists>p. from_index 3 19 = Inr p \<and> coords p = [1, 0, 2] \<and>
      coords p ! 0 = (unat (19 :: 64 word) div 3 ^ 0) mod 3 \<and>
      coords p ! 1 = (unat (19 :: 64 word) div 3 ^ 1) mod 3 \<and>
      coords p ! 2 = (unat (19 :: 64 word) div 3 ^ 2) mod 3 \<and>
      encode (coords p) = unat (19 :: 64 word))"
proof -
  have 1: "(3::nat) \<le> 41" by simp
  have 2: "unat (19 :: 64 word) < 3 ^ 3" by simp
  have 3: "from_index 3 19 = Inr (Point_create 3 [1, 0, 2])"
    by code_simp
  from from_index_roundtrip [OF 1 2] 1 2 3 show ?thesis
    by (auto simp: Point_create_def)
qed

lemma pow3_41_word: "(3::64 word) ^ 41 = 18026252303461234787"
  by simp

lemma top_digit_max: "unat (((18446744073709551615 :: 64 word) div 3 ^ 41) mod 3) = 1"
  by (simp add: pow3_41_word)

lemma unat_max: "unat (18446744073709551615 :: 64 word) = 18446744073709551615"
  by simp

lemma nat_member_le_sum_list: "x \<in> set xs \<Longrightarrow> (x::nat) \<le> sum_list xs"
  by (induction xs) auto

lemma nth_map_upt0: "d < n \<Longrightarrow> map f [0..<n] ! d = f d"
  by simp

lemma encode_ge_digit:
  assumes "d < length v"
  shows "v ! d * 3 ^ d \<le> encode v"
proof -
  have "v ! d * 3 ^ d \<in> set (map (\<lambda>d. v ! d * 3 ^ d) [0..<length v])"
    using assms by auto
  then show ?thesis
    unfolding encode_def by (rule nat_member_le_sum_list)
qed

text \<open>
  Claim C9 as stated fails at \<open>DIMS = 42\<close> and \<open>i = 2 ^ 64 - 1\<close>, which is below
  \<open>3 ^ 42\<close>: \<open>3 ^ 41\<close> does not fit 64 bits, \<^verbatim>\<open>ipow(3, 41)\<close> is \<open>3 ^ 41 mod 2 ^ 64\<close>, and
  \<open>coords[41]\<close> is 1 where \<open>(i / 3 ^ 41) mod 3\<close> is 0; the encoding of the vector is at
  least \<open>3 ^ 41\<close>, so it is not \<open>i\<close>.
\<close>

theorem from_index_beyond_int64:
  "unat (18446744073709551615 :: 64 word) < 3 ^ 42 \<and>
   \<not> isl (from_index 42 18446744073709551615) \<and>
   coords (projr (from_index 42 18446744073709551615)) ! 41 = 1 \<and>
   (unat (18446744073709551615 :: 64 word) div 3 ^ 41) mod 3 = 0 \<and>
   encode (coords (projr (from_index 42 18446744073709551615)))
     \<noteq> unat (18446744073709551615 :: 64 word)"
proof -
  let ?i = "18446744073709551615 :: 64 word"
  let ?v = "map (\<lambda>d. unat ((?i div 3 ^ d) mod 3)) [0..<42]"
  have p: "from_index 42 ?i = Inr (Point_create 42 ?v)"
    by (rule from_index_total)
  have c: "coords (projr (from_index 42 ?i)) = ?v"
    by (simp only: p sum.sel Point_create_def Point.simps)
  have "?v ! 41 = unat ((?i div 3 ^ 41) mod 3)"
    by (rule nth_map_upt0) simp
  then have d: "?v ! 41 = 1"
    by (simp only: top_digit_max)
  have 1: "unat ?i < 3 ^ 42"
    by (simp only: unat_max) simp
  have 2: "\<not> isl (from_index 42 ?i)"
    by (simp only: p sum.disc not_False_eq_True)
  have 3: "coords (projr (from_index 42 ?i)) ! 41 = 1"
    by (simp only: c d)
  have 4: "(unat ?i div 3 ^ 41) mod 3 = 0"
    by (simp only: unat_max) simp
  have "?v ! 41 * 3 ^ 41 \<le> encode ?v"
    by (rule encode_ge_digit) simp
  then have "(3::nat) ^ 41 \<le> encode ?v"
    by (simp only: d)
  moreover have "unat ?i < 3 ^ 41"
    by (simp only: unat_max) simp
  ultimately have "encode ?v \<noteq> unat ?i"
    by linarith
  then have 5: "encode (coords (projr (from_index 42 ?i))) \<noteq> unat ?i"
    by (subst c)
  from 1 2 3 4 5 show ?thesis by blast
qed

lemma digits_mod: "digits n (m mod 3 ^ n) = digits n m"
proof -
  have "(m mod 3 ^ n div 3 ^ d) mod 3 = (m div 3 ^ d) mod 3" if dn: "d < n" for d
  proof -
    obtain k where n: "n = d + Suc k"
      using less_imp_Suc_add [OF dn] by auto
    have "m mod (3 ^ d * 3 ^ Suc k) div 3 ^ d = (m div 3 ^ d) mod 3 ^ Suc k"
      by (simp add: mod_mult2_eq)
    moreover have "(3::nat) ^ n = 3 ^ d * 3 ^ Suc k"
      unfolding n by (rule power_add)
    ultimately have "(m mod 3 ^ n div 3 ^ d) mod 3 = ((m div 3 ^ d) mod 3 ^ Suc k) mod 3"
      by (simp only:)
    also have "\<dots> = (m div 3 ^ d) mod 3"
      by (intro mod_mod_cancel) simp
    finally show ?thesis .
  qed
  then show ?thesis by (simp add: digits_def)
qed

lemma word_lt_pow3_41: "unat (i::64 word) < 3 ^ 41"
proof -
  have "unat i < 2 ^ 64" using unsigned_less [of i] by simp
  moreover have "(2::nat) ^ 64 < 3 ^ 41" by simp
  ultimately show ?thesis by linarith
qed

text \<open>
  Claim C10. \<^verbatim>\<open>Point::from_index\<close> returns a point for every index of type \<^verbatim>\<open>size_t\<close>, also
  for \<open>i \<ge> 3 ^ DIMS\<close>: no assertion and no division by zero is reached, and the point is
  the one \<^verbatim>\<open>from_index(i mod 3 ^ DIMS)\<close> returns.
\<close>

theorem from_index_wraps:
  "\<exists>p. from_index DIMS i = Inr p \<and>
        from_index DIMS (word_of_nat (unat i mod 3 ^ DIMS)) = Inr p"
proof (cases "DIMS \<le> 40")
  case True
  then have D: "DIMS \<le> 41" by simp
  have "unat i mod 3 ^ DIMS < 3 ^ DIMS"
    by simp
  then have "unat i mod 3 ^ DIMS < 2 ^ 64"
    using pow3_lt [OF True] by (rule less_trans)
  then have "unat (word_of_nat (unat i mod 3 ^ DIMS) :: 64 word) = unat i mod 3 ^ DIMS"
    by (simp add: unat_of_nat)
  then show ?thesis
    by (simp add: from_index_digits [OF D] digits_mod)
next
  case False
  then have "(3::nat) ^ 41 \<le> 3 ^ DIMS"
    by (intro power_increasing) simp_all
  with word_lt_pow3_41 [of i] have "unat i mod 3 ^ DIMS = unat i" by simp
  then show ?thesis by (simp add: from_index_total)
qed

theorem from_index_wraps_witness:
  "(\<exists>p. from_index 3 100 = Inr p \<and> from_index 3 19 = Inr p) \<and>
   unat (100 :: 64 word) mod 3 ^ 3 = 19 \<and> 3 ^ 3 \<le> unat (100 :: 64 word)"
  using from_index_wraps [of 3 100] by simp

section \<open>Construction\<close>

lemma int_wrap_id: "- (2 ^ 31) \<le> x \<Longrightarrow> x < 2 ^ 31 \<Longrightarrow> int_wrap x = x"
  by (simp add: int_wrap_def sint_sbintrunc' signed_take_bit_int_eq_self)

lemma NUM_POINTS_eq: "DIMS \<le> 40 \<Longrightarrow> unat (NUM_POINTS DIMS) = 3 ^ DIMS"
  by (simp add: NUM_POINTS_def ipow_3 unat_pow3)

lemma Cube_new_total:
  "Cube_new DIMS = Inr \<lparr>points =
     map (\<lambda>idx. Point_create DIMS (map (\<lambda>d. unat (((word_of_nat idx :: 64 word) div 3 ^ d) mod 3)) [0..<DIMS]))
       [0..<unat (NUM_POINTS DIMS)]\<rparr>"
  unfolding Cube_new_def
  by (subst mapM_res_total [where g = "\<lambda>idx. Point_create DIMS
        (map (\<lambda>d. unat (((word_of_nat idx :: 64 word) div 3 ^ d) mod 3)) [0..<DIMS])"])
     (simp_all add: from_index_total)

lemma Cube_new_grid:
  assumes "DIMS \<le> 40"
  shows "Cube_new DIMS =
     Inr \<lparr>points = map (\<lambda>idx. Point_create DIMS (digits DIMS idx)) [0..<3 ^ DIMS]\<rparr>"
proof -
  have D: "DIMS \<le> 41" using assms by simp
  have "from_index DIMS (word_of_nat idx) = Inr (Point_create DIMS (digits DIMS idx))"
    if "idx \<in> set [0..<unat (NUM_POINTS DIMS)]" for idx
  proof -
    have "idx < 3 ^ DIMS"
      using that by (simp add: NUM_POINTS_eq [OF assms])
    then have "idx < 2 ^ 64"
      using pow3_lt [OF assms] by (rule less_trans)
    then have "unat (word_of_nat idx :: 64 word) = idx"
      by (simp add: unat_of_nat)
    then show ?thesis
      by (simp add: from_index_digits [OF D])
  qed
  then have "mapM_res (\<lambda>idx. from_index DIMS (word_of_nat idx)) [0..<unat (NUM_POINTS DIMS)] =
      Inr (map (\<lambda>idx. Point_create DIMS (digits DIMS idx)) [0..<unat (NUM_POINTS DIMS)])"
    by (rule mapM_res_total)
  then show ?thesis
    by (simp add: Cube_new_def NUM_POINTS_eq [OF assms])
qed

lemma ipow_constexpr_small:
  "list_all (\<lambda>d. ipow_constexpr 3 (int d) 1 = Some (3 ^ d)) [0..<32]"
  by code_simp

lemma ipow_constexpr_step:
  assumes "1 \<le> e" and "\<And>r'. ipow_constexpr (base * base) (e div 2) r' = None"
  shows "ipow_constexpr base e result = None"
  using assms by (subst ipow_constexpr.simps) simp

lemma ipow_constexpr_overflow:
  assumes "1 \<le> e" and "\<not> in_int64 (base * base)"
  shows "ipow_constexpr base e result = None"
  using assms by (subst ipow_constexpr.simps) simp

lemma ipow_constexpr_large:
  assumes "32 \<le> e"
  shows "ipow_constexpr 3 e result = None"
proof -
  have e1: "1 \<le> e" and e2: "1 \<le> e div 2" and e3: "1 \<le> e div 2 div 2"
    and e4: "1 \<le> e div 2 div 2 div 2" and e5: "1 \<le> e div 2 div 2 div 2 div 2"
    and e6: "1 \<le> e div 2 div 2 div 2 div 2 div 2"
    using assms by simp_all
  have "\<not> in_int64 (1853020188851841 * 1853020188851841)"
    by (simp add: in_int64_def)
  then have 6: "ipow_constexpr 1853020188851841 (e div 2 div 2 div 2 div 2 div 2) r = None" for r
    by (rule ipow_constexpr_overflow [OF e6])
  have "ipow_constexpr (43046721 * 43046721) (e div 2 div 2 div 2 div 2 div 2) r = None" for r
    using 6 by simp
  then have 5: "ipow_constexpr 43046721 (e div 2 div 2 div 2 div 2) r = None" for r
    by (rule ipow_constexpr_step [OF e5])
  have "ipow_constexpr (6561 * 6561) (e div 2 div 2 div 2 div 2) r = None" for r
    using 5 by simp
  then have 4: "ipow_constexpr 6561 (e div 2 div 2 div 2) r = None" for r
    by (rule ipow_constexpr_step [OF e4])
  have "ipow_constexpr (81 * 81) (e div 2 div 2 div 2) r = None" for r
    using 4 by simp
  then have 3: "ipow_constexpr 81 (e div 2 div 2) r = None" for r
    by (rule ipow_constexpr_step [OF e3])
  have "ipow_constexpr (9 * 9) (e div 2 div 2) r = None" for r
    using 3 by simp
  then have 2: "ipow_constexpr 9 (e div 2) r = None" for r
    by (rule ipow_constexpr_step [OF e2])
  have "ipow_constexpr (3 * 3) (e div 2) r = None" for r
    using 2 by simp
  then show ?thesis
    by (rule ipow_constexpr_step [OF e1])
qed

lemma Cube_accepted_iff: "Cube_accepted DIMS \<longleftrightarrow> 1 \<le> DIMS \<and> DIMS \<le> 31"
proof (cases "DIMS \<le> 31")
  case True
  then have "DIMS \<in> set [0..<32]" by simp
  with ipow_constexpr_small have "ipow_constexpr 3 (int DIMS) 1 = Some (3 ^ DIMS)"
    unfolding list_all_iff by blast
  with True show ?thesis by (auto simp: Cube_accepted_def)
next
  case False
  then have "32 \<le> int DIMS" by simp
  from ipow_constexpr_large [OF this] False show ?thesis
    by (simp add: Cube_accepted_def)
qed

lemma NUM_POINTS_constexpr:
  assumes "Cube_accepted DIMS"
  shows "ipow_constexpr 3 (int DIMS) 1 = Some (int (unat (NUM_POINTS DIMS)))"
proof -
  have D: "DIMS \<le> 31" using assms by (simp add: Cube_accepted_iff)
  then have "DIMS \<in> set [0..<32]" by simp
  with ipow_constexpr_small have "ipow_constexpr 3 (int DIMS) 1 = Some (3 ^ DIMS)"
    unfolding list_all_iff by blast
  then show ?thesis
    using D by (simp add: NUM_POINTS_eq)
qed

text \<open>
  Claim C5, as the code has it. For every \<open>DIMS\<close> the program accepts, 1 to 31, below 3
  as from 3 on, the constructor returns a cube of \<open>3 ^ DIMS\<close> points: it checks nothing,
  and the model has no error \<^verbatim>\<open>InvalidDimension\<close> because the program has none.
\<close>

theorem Cube_new_succeeds:
  assumes "1 \<le> DIMS" and "DIMS \<le> 31"
  shows "Cube_accepted DIMS \<and> (\<exists>c. Cube_new DIMS = Inr c \<and> length (points c) = 3 ^ DIMS)"
proof -
  have "DIMS \<le> 40" using assms(2) by simp
  from Cube_new_grid [OF this] assms show ?thesis
    by (simp add: Cube_accepted_iff)
qed

theorem Cube_new_succeeds_witness:
  "(1::nat) \<le> 2 \<and> (2::nat) \<le> 31 \<and> (2::nat) < 3 \<and> Cube_accepted 2 \<and>
   (\<exists>c. Cube_new 2 = Inr c \<and> length (points c) = 3 ^ 2)"
proof -
  have 1: "(1::nat) \<le> 2" and 2: "(2::nat) \<le> 31" by simp_all
  from Cube_new_succeeds [OF 1 2] show ?thesis by simp
qed

text \<open>
  Claim C5 as stated fails at \<open>DIMS = 2\<close>: the constructor returns the nine points
  of the 3x3 square.
\<close>

theorem Cube_new_small_counterexample:
  "Cube_new 2 = Inr \<lparr>points = [Point_create 2 [0, 0], Point_create 2 [1, 0], Point_create 2 [2, 0],
      Point_create 2 [0, 1], Point_create 2 [1, 1], Point_create 2 [2, 1],
      Point_create 2 [0, 2], Point_create 2 [1, 2], Point_create 2 [2, 2]]\<rparr>"
  by code_simp

lemma dist_self: "sum_list (map2 (\<lambda>a b. \<bar>int a - int b\<bar>) v v) = 0"
  by (induction v) simp_all

lemma Point_create_solved:
  "is_in_original_position (Point_create DIMS v)"
  "is_in_original_orientation (Point_create DIMS v)"
  "incorrectness (Point_create DIMS v) = 0"
  by (simp_all add: Point_create_def is_in_original_position_def is_in_original_orientation_def
      incorrectness_def dist_from_original_def dist_self)

text \<open>
  Claim C8. The cube the constructor returns is solved and its unsolvedness is 0, for
  every \<open>DIMS\<close> (so for every \<open>DIMS \<ge> 3\<close>).
\<close>

theorem fresh_cube_solved:
  "\<exists>c. Cube_new DIMS = Inr c \<and> is_solved DIMS c \<and> unsolvedness c = 0"
proof -
  have "sum_list (map incorrectness (map (\<lambda>idx. Point_create DIMS (f idx)) xs)) = 0" for f and xs :: "nat list"
    by (induction xs) (simp_all add: Point_create_solved)
  then show ?thesis
    by (simp add: Cube_new_total is_solved_def unsolvedness_def list_all_iff Point_create_solved
        int_wrap_def)
qed

theorem fresh_cube_solved_witness:
  "(3::nat) \<le> 3 \<and> Cube_new 3 = Inr fresh3 \<and> is_solved 3 fresh3 \<and> unsolvedness fresh3 = 0"
proof -
  from fresh_cube_solved [of 3] obtain c where
    c: "Cube_new 3 = Inr c" "is_solved 3 c" "unsolvedness c = 0"
    by blast
  from c(1) have "c = fresh3" by simp
  with c show ?thesis by simp
qed

section \<open>Rotations permute the grid\<close>

lemma finite_grid: "finite (grid DIMS)"
proof -
  have "grid DIMS \<subseteq> {xs. set xs \<subseteq> {..<3} \<and> length xs = DIMS}"
    by (auto simp: grid_def list_all_iff)
  then show ?thesis
    by (rule finite_subset) (simp add: finite_lists_length_eq)
qed

lemma card_grid: "card (grid DIMS) = 3 ^ DIMS"
proof -
  have "grid DIMS = {xs. set xs \<subseteq> {..<3} \<and> length xs = DIMS}"
    by (auto simp: grid_def list_all_iff)
  then show ?thesis
    by (simp add: card_lists_length_eq)
qed

lemma digits_in_grid: "digits DIMS m \<in> grid DIMS"
  by (simp add: grid_def digits_def list_all_iff)

lemma inj_on_digits: "inj_on (digits DIMS) {0..<3 ^ DIMS}"
proof (rule inj_onI)
  fix m n assume "m \<in> {0..<3 ^ DIMS}" "n \<in> {0..<3 ^ DIMS}" "digits DIMS m = digits DIMS n"
  then have "m mod 3 ^ DIMS = n mod 3 ^ DIMS"
    by (metis encode_digits)
  with \<open>m \<in> _\<close> \<open>n \<in> _\<close> show "m = n" by simp
qed

lemma digits_image: "digits DIMS ` {0..<3 ^ DIMS} = grid DIMS"
proof (rule card_subset_eq [OF finite_grid])
  show "digits DIMS ` {0..<3 ^ DIMS} \<subseteq> grid DIMS"
    by (auto simp: digits_in_grid)
  show "card (digits DIMS ` {0..<3 ^ DIMS}) = card (grid DIMS)"
    by (simp add: card_image [OF inj_on_digits] card_grid)
qed

lemma mset_digits: "mset (map (digits DIMS) [0..<3 ^ DIMS]) = mset_set (grid DIMS)"
proof -
  have "distinct (map (digits DIMS) [0..<3 ^ DIMS])"
    by (simp add: distinct_map inj_on_digits)
  then have "mset_set (set (map (digits DIMS) [0..<3 ^ DIMS])) = mset (map (digits DIMS) [0..<3 ^ DIMS])"
    by (rule mset_set_set)
  then show ?thesis
    by (simp add: digits_image)
qed

lemma rotate_coords_grid:
  assumes "valid_rotation DIMS r" and "v \<in> grid DIMS"
  shows "rotate_coords r v \<in> grid DIMS"
proof -
  have v: "length v = DIMS" "list_all (\<lambda>x. x < 3) v"
    using assms(2) by (simp_all add: grid_def)
  from rotate_coords_bound [OF assms(1) v] v(1) show ?thesis
    by (simp add: grid_def)
qed

lemma rotate_coords_inj: 
  assumes "valid_rotation DIMS r"
  shows "inj_on (rotate_coords r) (grid DIMS)"
proof (rule inj_onI)
  fix v w assume v: "v \<in> grid DIMS" and w: "w \<in> grid DIMS"
    and eq: "rotate_coords r v = rotate_coords r w"
  have "rotate_coords r (rotate_coords r (rotate_coords r (rotate_coords r v))) = v"
    using v by (intro rotate_coords_four [OF assms]) (simp_all add: grid_def)
  moreover have "rotate_coords r (rotate_coords r (rotate_coords r (rotate_coords r w))) = w"
    using w by (intro rotate_coords_four [OF assms]) (simp_all add: grid_def)
  ultimately show "v = w" using eq by metis
qed

lemma rotate_coords_image:
  assumes "valid_rotation DIMS r"
  shows "rotate_coords r ` grid DIMS = grid DIMS"
  using finite_grid
proof (rule endo_inj_surj)
  show "rotate_coords r ` grid DIMS \<subseteq> grid DIMS"
    using rotate_coords_grid [OF assms] by auto
  show "inj_on (rotate_coords r) (grid DIMS)"
    by (rule rotate_coords_inj [OF assms])
qed

lemma rotate_coords_mset:
  assumes "valid_rotation DIMS r"
  shows "image_mset (rotate_coords r) (mset_set (grid DIMS)) = mset_set (grid DIMS)"
  by (simp add: image_mset_mset_set [OF rotate_coords_inj [OF assms]] rotate_coords_image [OF assms])

lemma coords_turn: "coords (turn r p) = rotate_coords r (coords p)"
  by (simp add: turn_def rotate_coords_def)

lemma original_coords_turn: "original_coords (turn r p) = original_coords p"
  by (simp add: turn_def)

lemma cube_inv_rotate:
  assumes r: "valid_rotation DIMS r" and inv: "cube_inv DIMS c"
  shows "\<exists>c'. Cube_rotate DIMS r c = Inr c' \<and> cube_inv DIMS c' \<and>
           mset (map coords (points c')) = mset (map coords (points c))"
proof -
  let ?c' = "c\<lparr>points := map (turn r) (points c)\<rparr>"
  have ok: "cube_ok DIMS c"
    and orig: "map original_coords (points c) = map (digits DIMS) [0..<3 ^ DIMS]"
    and ms: "mset (map coords (points c)) = mset (map original_coords (points c))"
    using inv unfolding cube_inv_def by blast+
  have g: "mset (map coords (points c)) = mset_set (grid DIMS)"
    by (simp only: ms orig mset_digits)
  have rot: "Cube_rotate DIMS r c = Inr ?c'"
    by (rule Cube_rotate_turn [OF r ok])
  have "mset (map coords (points ?c')) = image_mset (rotate_coords r) (mset (map coords (points c)))"
    by (simp add: comp_def coords_turn multiset.map_comp)
  then have same: "mset (map coords (points ?c')) = mset (map coords (points c))"
    by (simp only: g rotate_coords_mset [OF r])
  have orig': "map original_coords (points ?c') = map original_coords (points c)"
    by (simp add: comp_def original_coords_turn)
  have "cube_inv DIMS ?c'"
    unfolding cube_inv_def using cube_ok_turn [OF r ok] same orig' orig ms by (simp only:)
  with rot same show ?thesis by blast
qed

lemma cube_inv_new:
  assumes "DIMS \<le> 40" and "Cube_new DIMS = Inr c"
  shows "cube_inv DIMS c"
proof -
  have c: "c = \<lparr>points = map (\<lambda>idx. Point_create DIMS (digits DIMS idx)) [0..<3 ^ DIMS]\<rparr>"
    using Cube_new_grid [OF assms(1)] assms(2) by simp
  have "point_ok DIMS (Point_create DIMS (digits DIMS idx))" for idx
    by (simp add: point_ok_def vec_ok_def coords_ok_def Point_create_def digits_def list_all_iff)
  then show ?thesis
    by (simp add: c cube_inv_def cube_ok_def list_all_iff comp_def Point_create_def)
qed

lemma reachable_inv:
  assumes "DIMS \<le> 40"
  shows "reachable DIMS c \<Longrightarrow> cube_inv DIMS c"
proof (induction rule: reachable.induct)
  case (fresh c)
  then show ?case by (rule cube_inv_new [OF assms])
next
  case (rotated c r c')
  from cube_inv_rotate [OF rotated.hyps(2) rotated.IH] rotated.hyps(3)
  show ?case by auto
qed

text \<open>
  Claim C6. For \<open>DIMS \<le> 40\<close> (the dimensions whose \<open>3 ^ DIMS\<close> points the 64-bit count of
  the constructor can number), every reachable cube and every valid rotation \<open>r\<close>:
  \<^verbatim>\<open>Cube::rotate(r)\<close> succeeds, the cube has \<open>3 ^ DIMS\<close> points before and after, the
  multiset of their \<open>coords\<close> is the same after as before, and before and after it is the
  multiset of their \<open>original_coords\<close>. Lemma \<open>cube_inv_rotate\<close> is the same for every
  state with the data invariant \<open>cube_inv\<close>, whatever \<open>DIMS\<close> is.
\<close>

theorem rotation_permutes_coords:
  assumes "DIMS \<le> 40" and "reachable DIMS c" and "valid_rotation DIMS r"
  shows "\<exists>c'. Cube_rotate DIMS r c = Inr c' \<and>
           length (points c) = 3 ^ DIMS \<and> length (points c') = 3 ^ DIMS \<and>
           mset (map coords (points c')) = mset (map coords (points c)) \<and>
           mset (map coords (points c)) = mset (map original_coords (points c)) \<and>
           mset (map coords (points c')) = mset (map original_coords (points c'))"
proof -
  have inv: "cube_inv DIMS c"
    by (rule reachable_inv [OF assms(1,2)])
  from cube_inv_rotate [OF assms(3) inv] obtain c' where c':
    "Cube_rotate DIMS r c = Inr c'" "cube_inv DIMS c'"
    "mset (map coords (points c')) = mset (map coords (points c))"
    by blast
  have len: "length (points d) = 3 ^ DIMS" if "cube_inv DIMS d" for d
  proof -
    have "length (map original_coords (points d)) = length (map (digits DIMS) [0..<3 ^ DIMS])"
      using that by (simp only: cube_inv_def)
    then show ?thesis by simp
  qed
  have ms: "mset (map coords (points d)) = mset (map original_coords (points d))"
    if "cube_inv DIMS d" for d
    using that unfolding cube_inv_def by blast
  show ?thesis
    using c'(1,3) len [OF inv] len [OF c'(2)] ms [OF inv] ms [OF c'(2)] by blast
qed

theorem rotation_permutes_coords_witness:
  "(3::nat) \<le> 40 \<and> reachable 3 fresh3 \<and> valid_rotation 3 top_turn \<and>
   (\<exists>c'. Cube_rotate 3 top_turn fresh3 = Inr c' \<and> \<not> is_solved 3 c' \<and>
      length (points fresh3) = 3 ^ 3 \<and> length (points c') = 3 ^ 3 \<and>
      mset (map coords (points c')) = mset (map coords (points fresh3)) \<and>
      mset (map coords (points c')) = mset (map original_coords (points c')))"
proof -
  have 1: "(3::nat) \<le> 40" by simp
  have 2: "reachable 3 fresh3"
    by (rule reachable.fresh) (rule fresh3_facts)
  have 3: "valid_rotation 3 top_turn"
    by (simp add: valid_rotation_def)
  from rotation_permutes_coords [OF 1 2 3] fresh3_facts(5) 1 2 3 show ?thesis
    by auto
qed

section \<open>Unsolvedness and solvedness\<close>

lemma reachable_rotate_all:
  "reachable DIMS c \<Longrightarrow> list_all (valid_rotation DIMS) rs \<Longrightarrow> rotate_all DIMS rs c = Inr c' \<Longrightarrow>
   reachable DIMS c'"
proof (induction rs arbitrary: c)
  case Nil
  then show ?case by simp
next
  case (Cons r rs)
  from Cons.prems(3) obtain c1 where c1: "Cube_rotate DIMS r c = Inr c1"
    and rest: "rotate_all DIMS rs c1 = Inr c'"
    by (auto split: sum.splits)
  have "reachable DIMS c1"
    using Cons.prems(1,2) c1 by (auto intro: reachable.rotated)
  then show ?case
    using Cons.IH rest Cons.prems(2) by simp
qed

lemma twisted_eval:
  "\<not> isl twisted" "is_solved 3 (projr twisted)" "unsolvedness (projr twisted) = 20"
  by code_simp+

lemma twisted_reachable: "reachable 3 (projr twisted)"
proof -
  obtain c0 where c0: "Cube_new 3 = Inr c0"
    using Cube_new_total [of 3] by blast
  have "twisted = Inr (projr twisted)"
    using twisted_eval(1) by (cases twisted) simp_all
  then have "rotate_all 3 centre_twist c0 = Inr (projr twisted)"
    by (simp add: twisted_def c0)
  moreover have "list_all (valid_rotation 3) centre_twist"
    by (simp add: centre_twist_def valid_rotation_def)
  ultimately show ?thesis
    using reachable_rotate_all [OF reachable.fresh [OF c0]] by blast
qed

text \<open>
  Claim C3 as stated fails: the state \<open>twisted\<close> is reachable in the 3x3x3 cube and solved,
  since \<^verbatim>\<open>is_solved\<close> does not look at the orientation of a centre point, and its
  unsolvedness is 20, since \<^verbatim>\<open>incorrectness\<close> does.
\<close>

theorem solved_with_positive_unsolvedness:
  "reachable 3 (projr twisted) \<and> is_solved 3 (projr twisted) \<and> unsolvedness (projr twisted) = 20"
  using twisted_reachable twisted_eval by simp

lemma dist_nonneg: "0 \<le> sum_list (map2 (\<lambda>a b. \<bar>int a - int b\<bar>) xs ys)"
  by (induction xs ys rule: list_induct2') simp_all

lemma dist_zero_iff:
  "length xs = length ys \<Longrightarrow>
   sum_list (map2 (\<lambda>a b. \<bar>int a - int b\<bar>) xs ys) = 0 \<longleftrightarrow> xs = ys"
proof (induction xs ys rule: list_induct2)
  case Nil
  then show ?case by simp
next
  case (Cons x xs y ys)
  have "0 \<le> sum_list (map2 (\<lambda>a b. \<bar>int a - int b\<bar>) xs ys)"
    by (rule dist_nonneg)
  then have "\<bar>int x - int y\<bar> + sum_list (map2 (\<lambda>a b. \<bar>int a - int b\<bar>) xs ys) = 0 \<longleftrightarrow>
      x = y \<and> sum_list (map2 (\<lambda>a b. \<bar>int a - int b\<bar>) xs ys) = 0"
    by linarith
  with Cons.IH show ?case by simp
qed

lemma dist_bound:
  "length xs = length ys \<Longrightarrow> list_all (\<lambda>x. x < 3) xs \<Longrightarrow> list_all (\<lambda>x. x < 3) ys \<Longrightarrow>
   sum_list (map2 (\<lambda>a b. \<bar>int a - int b\<bar>) xs ys) \<le> 2 * int (length xs)"
proof (induction xs ys rule: list_induct2)
  case Nil
  then show ?case by simp
next
  case (Cons x xs y ys)
  then have "x < 3" "y < 3" by simp_all
  then have "\<bar>int x - int y\<bar> \<le> 2" by linarith
  moreover have "sum_list (map2 (\<lambda>a b. \<bar>int a - int b\<bar>) xs ys) \<le> 2 * int (length xs)"
    using Cons by simp
  ultimately show ?case by simp
qed

lemma incorrectness_nonneg: "0 \<le> incorrectness p"
  using dist_nonneg [of "coords p" "original_coords p"]
  by (simp add: incorrectness_def dist_from_original_def)

lemma incorrectness_zero_iff:
  assumes "vec_ok DIMS p"
  shows "incorrectness p = 0 \<longleftrightarrow> is_in_original_position p \<and> is_in_original_orientation p"
proof -
  have len: "length (coords p) = length (original_coords p)"
    using assms by (simp add: vec_ok_def)
  show ?thesis
    using dist_nonneg [of "coords p" "original_coords p"] dist_zero_iff [OF len]
    by (auto simp: incorrectness_def dist_from_original_def is_in_original_position_def)
qed

lemma incorrectness_bound:
  assumes "vec_ok DIMS p" and "coords_ok p" and "list_all (\<lambda>x. x < 3) (original_coords p)"
  shows "incorrectness p \<le> 2 * int DIMS + 10"
proof -
  have len: "length (coords p) = length (original_coords p)" "length (coords p) = DIMS"
    using assms(1) by (simp_all add: vec_ok_def)
  have "dist_from_original p \<le> 2 * int DIMS"
    using dist_bound [OF len(1)] assms(2,3) len(2)
    by (simp add: dist_from_original_def coords_ok_def)
  then show ?thesis
    by (simp add: incorrectness_def)
qed

lemma sum_list_bound:
  "(\<And>x. x \<in> set xs \<Longrightarrow> f x \<le> (k::int)) \<Longrightarrow> sum_list (map f xs) \<le> int (length xs) * k"
proof (induction xs)
  case Nil
  then show ?case by simp
next
  case (Cons x xs)
  have "f x \<le> k" using Cons.prems by simp
  moreover have "sum_list (map f xs) \<le> int (length xs) * k"
    using Cons by simp
  ultimately show ?case by (simp add: algebra_simps)
qed

lemma cube_inv_original:
  assumes "cube_inv DIMS c" and "p \<in> set (points c)"
  shows "list_all (\<lambda>x. x < 3) (original_coords p)"
proof -
  have "original_coords p \<in> set (map original_coords (points c))"
    using assms(2) by simp
  also have "\<dots> = set (map (digits DIMS) [0..<3 ^ DIMS])"
    using assms(1) unfolding cube_inv_def by metis
  finally obtain m where "original_coords p = digits DIMS m" by auto
  then show ?thesis
    using digits_in_grid [of DIMS m] by (simp add: grid_def)
qed

lemma cube_inv_length: "cube_inv DIMS c \<Longrightarrow> length (points c) = 3 ^ DIMS"
proof -
  assume "cube_inv DIMS c"
  then have "length (map original_coords (points c)) = length (map (digits DIMS) [0..<3 ^ DIMS])"
    by (simp only: cube_inv_def)
  then show ?thesis by simp
qed

lemma pow3_16: "(3::int) ^ 16 * 42 < 2 ^ 31"
  by simp

lemma total_incorrectness_bound:
  assumes D: "DIMS \<le> 16" and inv: "cube_inv DIMS c"
  shows "sum_list (map incorrectness (points c)) < 2 ^ 31"
proof -
  have ok: "point_ok DIMS p" if "p \<in> set (points c)" for p
    using inv that by (simp add: cube_inv_def cube_ok_def list_all_iff)
  have "incorrectness p \<le> 2 * int DIMS + 10" if "p \<in> set (points c)" for p
    using ok [OF that] cube_inv_original [OF inv that]
    by (intro incorrectness_bound) (simp_all add: point_ok_def)
  then have "sum_list (map incorrectness (points c)) \<le> int (length (points c)) * (2 * int DIMS + 10)"
    by (rule sum_list_bound)
  also have "\<dots> = 3 ^ DIMS * (2 * int DIMS + 10)"
    by (simp add: cube_inv_length [OF inv])
  also have "\<dots> \<le> 3 ^ 16 * 42"
  proof (rule mult_mono)
    show "(3::int) ^ DIMS \<le> 3 ^ 16"
      using D by (intro power_increasing) simp_all
    show "2 * int DIMS + 10 \<le> 42" using D by simp
  qed simp_all
  finally show ?thesis using pow3_16 by linarith
qed

lemma unsolvedness_exact:
  assumes "DIMS \<le> 16" and "cube_inv DIMS c"
  shows "unsolvedness c = sum_list (map incorrectness (points c))"
proof -
  have "0 \<le> sum_list (map incorrectness (points c))"
    by (intro sum_list_nonneg) (auto simp: incorrectness_nonneg)
  then show ?thesis
    using total_incorrectness_bound [OF assms]
    by (simp add: unsolvedness_def int_wrap_id)
qed

text \<open>
  Claim C3, as the code has it. For \<open>DIMS \<le> 16\<close> (where the sum of \<open>3 ^ DIMS\<close> values of
  at most \<open>2 * DIMS + 10\<close> stays below \<open>2 ^ 31\<close>) and every reachable cube, the unsolvedness
  is not negative, and it is 0 if and only if the cube is solved and every centre point is
  in its original orientation. So unsolvedness 0 implies solved; the converse needs the
  centres.
\<close>

theorem unsolvedness_zero_iff:
  assumes "DIMS \<le> 16" and "reachable DIMS c"
  shows "0 \<le> unsolvedness c \<and>
         (unsolvedness c = 0 \<longleftrightarrow>
            is_solved DIMS c \<and>
            list_all (\<lambda>p. is_center DIMS p \<longrightarrow> is_in_original_orientation p) (points c)) \<and>
         (unsolvedness c = 0 \<longrightarrow> is_solved DIMS c)"
proof -
  have inv: "cube_inv DIMS c"
    using assms by (intro reachable_inv) simp_all
  have u: "unsolvedness c = sum_list (map incorrectness (points c))"
    by (rule unsolvedness_exact [OF assms(1) inv])
  have nonneg: "0 \<le> sum_list (map incorrectness (points c))"
    by (intro sum_list_nonneg) (auto simp: incorrectness_nonneg)
  have vec: "vec_ok DIMS p" if "p \<in> set (points c)" for p
    using inv that by (simp add: cube_inv_def cube_ok_def list_all_iff point_ok_def)
  have "sum_list (map incorrectness (points c)) = 0 \<longleftrightarrow>
        (\<forall>x \<in> set (map incorrectness (points c)). x = 0)"
    by (intro sum_list_nonneg_eq_0_iff) (auto simp: incorrectness_nonneg)
  also have "\<dots> \<longleftrightarrow> (\<forall>p \<in> set (points c). is_in_original_position p \<and> is_in_original_orientation p)"
    using incorrectness_zero_iff [OF vec] by auto
  also have "\<dots> \<longleftrightarrow> is_solved DIMS c \<and>
      list_all (\<lambda>p. is_center DIMS p \<longrightarrow> is_in_original_orientation p) (points c)"
    by (auto simp: is_solved_def list_all_iff)
  finally show ?thesis
    using u nonneg by simp
qed

theorem unsolvedness_zero_iff_witness:
  "(3::nat) \<le> 16 \<and> reachable 3 fresh3 \<and> reachable 3 (projr twisted) \<and>
   unsolvedness fresh3 = 0 \<and> is_solved 3 fresh3 \<and>
   list_all (\<lambda>p. is_center 3 p \<longrightarrow> is_in_original_orientation p) (points fresh3) \<and>
   0 < unsolvedness (projr twisted) \<and>
   \<not> list_all (\<lambda>p. is_center 3 p \<longrightarrow> is_in_original_orientation p) (points (projr twisted))"
proof -
  have 1: "(3::nat) \<le> 16" by simp
  have 2: "reachable 3 fresh3"
    by (rule reachable.fresh) (rule fresh3_facts)
  have 3: "reachable 3 (projr twisted)"
    by (rule twisted_reachable)
  from unsolvedness_zero_iff [OF 1 2] unsolvedness_zero_iff [OF 1 3]
    fresh3_facts(3) twisted_eval(2,3) 1 2 3
  show ?thesis by auto
qed

section \<open>The solver loop\<close>

lemma reroll_result:
  "0 < DIMS \<Longrightarrow> v < DIMS \<Longrightarrow> reroll DIMS clash v rs = Some (w, rs') \<Longrightarrow>
   \<not> clash w \<and> w < DIMS"
  by (induction DIMS clash v rs rule: reroll.induct) (auto split: if_splits)

lemma Rotation_random_valid:
  assumes "Rotation_random DIMS rs = Some (Inr (r, rs'))"
  shows "valid_rotation DIMS r"
proof -
  have D: "0 < DIMS"
    using assms by (auto simp: Rotation_random_def split: option.splits if_splits)
  from assms obtain x0 x1 x2 x3 rs2 rs3 rs4 f t where
    f: "reroll DIMS (\<lambda>v. v = x1 mod DIMS) (x2 mod DIMS) rs2 = Some (f, rs3)"
    and t: "reroll DIMS (\<lambda>v. v = x1 mod DIMS \<or> v = f) (x3 mod DIMS) rs4 = Some (t, rs')"
    and r: "r = \<lparr>axis = x1 mod DIMS, from_axis = f, to_axis = t, side = Side_of ((x0 AND 1) * 2)\<rparr>"
    by (auto simp: Rotation_random_def split: option.splits if_splits)
  from reroll_result [OF D _ f] reroll_result [OF D _ t] D show ?thesis
    by (auto simp: r valid_rotation_def)
qed

lemma solve_returns_solved:
  "solve DIMS c rotations rs = Some (Inr (c', h)) \<Longrightarrow> is_solved DIMS c'"
proof (induction DIMS c rotations rs rule: solve.induct)
  case (1 DIMS c rotations rs)
  show ?case
  proof (cases "is_solved DIMS c")
    case True
    with "1.prems" show ?thesis by (simp add: solve.simps)
  next
    case False
    with "1.prems" obtain c1 h1 rs1 where
      it: "solve_iteration DIMS c rotations rs = Some (Inr (c1, h1, rs1))"
      and rest: "solve DIMS c1 h1 rs1 = Some (Inr (c', h))"
      by (subst (asm) solve.simps) (auto split: option.splits sum.splits)
    from "1.IH" [OF False it refl refl refl rest] show ?thesis .
  qed
qed

text \<open>
  Claim C4. One pass of the loop of \<^verbatim>\<open>Cube::solve\<close> on a well-formed cube \<open>c\<close>, when
  \<^verbatim>\<open>Rotation::random\<close> returns \<open>r\<close> and the next value of \<^verbatim>\<open>rand()\<close> is \<open>x\<close>: the rotation is
  valid and is applied, giving \<open>c1\<close>; \<open>v = x mod 100\<close> is below 100; if the unsolvedness
  of \<open>c1\<close> is greater than that of \<open>c\<close>, then exactly when \<open>v < 90\<close> the pass ends with
  the cube \<open>c\<close> again (three further applications of \<open>r\<close> to \<open>c1\<close>) and the history as it
  was, and otherwise with \<open>c1\<close> and the history extended by \<open>r\<close>; if it is not greater, the
  same with \<open>v < 10\<close>. The loop returns at once on a solved cube, goes on from the
  result of the pass on any other, and whenever it returns the cube is solved. That \<open>v\<close> is
  uniformly distributed is a property of \<^verbatim>\<open>rand()\<close>, not of this program.
\<close>

theorem solve_iteration_policy:
  assumes "cube_ok DIMS c"
    and "Rotation_random DIMS rs = Some (Inr (r, rs1))"
    and "rand rs1 = Some (x, rs2)"
  shows "\<exists>c1. valid_rotation DIMS r \<and> Cube_rotate DIMS r c = Inr c1 \<and>
      rotate_n DIMS r 3 c1 = Inr c \<and> undo_rotation DIMS r c1 = Inr c \<and> x mod 100 < 100 \<and>
      solve_iteration DIMS c rotations rs = Some (Inr
        (if unsolvedness c < unsolvedness c1
         then (if x mod 100 < 90 then (c, rotations, rs2) else (c1, rotations @ [r], rs2))
         else (if x mod 100 < 10 then (c, rotations, rs2) else (c1, rotations @ [r], rs2)))) \<and>
      solve DIMS c rotations rs =
        (if is_solved DIMS c then Some (Inr (c, rotations))
         else if unsolvedness c < unsolvedness c1
         then (if x mod 100 < 90 then solve DIMS c rotations rs2
               else solve DIMS c1 (rotations @ [r]) rs2)
         else (if x mod 100 < 10 then solve DIMS c rotations rs2
               else solve DIMS c1 (rotations @ [r]) rs2)) \<and>
      (\<forall>c' h. solve DIMS c rotations rs = Some (Inr (c', h)) \<longrightarrow> is_solved DIMS c')"
proof -
  have r: "valid_rotation DIMS r"
    by (rule Rotation_random_valid [OF assms(2)])
  from rotate_then_undo [OF r assms(1)] obtain c1 where
    c1: "Cube_rotate DIMS r c = Inr c1" and undo: "undo_rotation DIMS r c1 = Inr c"
    by blast
  have it: "solve_iteration DIMS c rotations rs = Some (Inr
        (if unsolvedness c < unsolvedness c1
         then (if x mod 100 < 90 then (c, rotations, rs2) else (c1, rotations @ [r], rs2))
         else (if x mod 100 < 10 then (c, rotations, rs2) else (c1, rotations @ [r], rs2))))"
    by (simp add: solve_iteration_def assms(2,3) c1 undo Let_def)
  have loop: "solve DIMS c rotations rs =
        (if is_solved DIMS c then Some (Inr (c, rotations))
         else if unsolvedness c < unsolvedness c1
         then (if x mod 100 < 90 then solve DIMS c rotations rs2
               else solve DIMS c1 (rotations @ [r]) rs2)
         else (if x mod 100 < 10 then solve DIMS c rotations rs2
               else solve DIMS c1 (rotations @ [r]) rs2))"
    by (subst solve.simps) (simp add: it)
  have fin: "\<forall>c' h. solve DIMS c rotations rs = Some (Inr (c', h)) \<longrightarrow> is_solved DIMS c'"
    using solve_returns_solved by blast
  show ?thesis
  proof (intro exI [of _ c1] conjI)
    show "rotate_n DIMS r 3 c1 = Inr c"
      using undo by (simp only: undo_rotation_def)
    show "x mod 100 < 100"
      by simp
  qed (fact r c1 undo it loop fin)+
qed

theorem solve_iteration_policy_witness:
  "cube_ok 3 fresh3 \<and>
   Rotation_random 3 [1, 1, 2, 0, 95] = Some (Inr (top_turn, [95])) \<and>
   Rotation_random 3 [1, 1, 2, 0, 50] = Some (Inr (top_turn, [50])) \<and>
   rand [95] = Some (95, []) \<and> rand [50] = Some (50, []) \<and>
   (\<exists>c1. Cube_rotate 3 top_turn fresh3 = Inr c1 \<and> unsolvedness fresh3 < unsolvedness c1 \<and>
      undo_rotation 3 top_turn c1 = Inr fresh3 \<and>
      solve_iteration 3 fresh3 [] [1, 1, 2, 0, 95] = Some (Inr (c1, [top_turn], [])) \<and>
      solve_iteration 3 fresh3 [] [1, 1, 2, 0, 50] = Some (Inr (fresh3, [], [])))"
proof -
  have 1: "cube_ok 3 fresh3" by (rule fresh3_facts)
  have 2: "Rotation_random 3 [1, 1, 2, 0, 95] = Some (Inr (top_turn, [95]))"
    and 3: "Rotation_random 3 [1, 1, 2, 0, 50] = Some (Inr (top_turn, [50]))"
    by (rule random_demo)+
  have 4: "rand [95] = Some (95, [])" and 5: "rand [50] = Some (50, [])"
    by (simp_all add: rand_def)
  from solve_iteration_policy [OF 1 2 4, of "[]"] obtain c1 where
    a: "Cube_rotate 3 top_turn fresh3 = Inr c1" "undo_rotation 3 top_turn c1 = Inr fresh3"
      "solve_iteration 3 fresh3 [] [1, 1, 2, 0, 95] = Some (Inr
        (if unsolvedness fresh3 < unsolvedness c1
         then (if (95::nat) mod 100 < 90 then (fresh3, [], []) else (c1, [] @ [top_turn], []))
         else (if (95::nat) mod 100 < 10 then (fresh3, [], []) else (c1, [] @ [top_turn], []))))"
    by blast
  from solve_iteration_policy [OF 1 3 5, of "[]"] a(1) have
    b: "solve_iteration 3 fresh3 [] [1, 1, 2, 0, 50] = Some (Inr
        (if unsolvedness fresh3 < unsolvedness c1
         then (if (50::nat) mod 100 < 90 then (fresh3, [], []) else (c1, [] @ [top_turn], []))
         else (if (50::nat) mod 100 < 10 then (fresh3, [], []) else (c1, [] @ [top_turn], []))))"
    by auto
  have worse: "unsolvedness fresh3 < unsolvedness c1"
    using fresh3_facts(3,4) a(1) by simp
  show ?thesis
    using 1 2 3 4 5 a b worse by simp
qed

end
